theory Spec2Isabelle
  imports Complex_Main "HOL-Library.Multiset" "HOL-Library.Product_Lexorder"
begin

section \<open>The spelling corrector of spell.py\<close>

text \<open>
  A shallow embedding of the class \<open>NonEnglishSpellCorrector\<close> of \<open>src/spell.py\<close>.

  Conventions of the model.
  \<^item> A Python \<open>str\<close> is a \<open>string\<close>; every \<open>char\<close> stands for the code point
    of the same number (U+0000 to U+00FF), so \<open>length\<close> counts what \<open>len\<close> counts.
  \<^item> A Python \<open>float\<close> is a \<open>real\<close>: the arithmetic is exact, rounding is not
    modelled. Comparisons of scores are the comparisons of the source.
  \<^item> An exception is a value \<open>Inl e\<close> of the result type \<open>error + 'a\<close>.
\<close>

datatype error = ZeroDivisionError | IndexError

subsection \<open>Strings: \<open>str.lower\<close>, \<open>str.replace\<close>, the two \<open>re.sub\<close> calls\<close>

text \<open>
  \<open>str.lower\<close> on the code points below 256: the letters A to Z and the capital
  letters U+00C0 to U+00DE, the multiplication sign U+00D7 apart, move 32 up.
\<close>

definition lower_char :: "char \<Rightarrow> char" where
  "lower_char c =
     (let n = (of_char c :: nat)
      in if (65 \<le> n \<and> n \<le> 90) \<or> (192 \<le> n \<and> n \<le> 222 \<and> n \<noteq> 215)
         then char_of (n + 32) else c)"

definition lower :: "string \<Rightarrow> string" where
  "lower w = map lower_char w"

text \<open>
  \<open>s.replace(old, new)\<close>: the occurrences of \<open>old\<close> are replaced from left to right,
  without overlap. With an empty \<open>old\<close> Python puts \<open>new\<close> before every character
  and at the end.
\<close>

function str_replace :: "string \<Rightarrow> string \<Rightarrow> string \<Rightarrow> string" where
  "str_replace old new [] = (if old = [] then new else [])"
| "str_replace old new (c # cs) =
     (if old = [] then new @ c # str_replace old new cs
      else if take (length old) (c # cs) = old
        then new @ str_replace old new (drop (length old) (c # cs))
        else c # str_replace old new cs)"
  by pat_completeness auto
termination
  by (relation "measure (\<lambda>(old, new, s). length s)") auto

text \<open>
  \<open>re.sub(r'([aeiou])\1{2,}', r'\1\1', w)\<close>: a vowel followed by two or more copies of
  itself; the greedy match takes the whole run and leaves two.
\<close>

function collapse_vowel_runs :: "string \<Rightarrow> string" where
  "collapse_vowel_runs [] = []"
| "collapse_vowel_runs (c # cs) =
     (if c \<in> set ''aeiou'' \<and> 2 \<le> length (takeWhile (\<lambda>x. x = c) cs)
      then c # c # collapse_vowel_runs (dropWhile (\<lambda>x. x = c) cs)
      else c # collapse_vowel_runs cs)"
  by pat_completeness auto
termination
  by (relation "measure length") (auto simp: length_dropWhile_le less_Suc_eq_le)

text \<open>
  \<open>re.sub(r'([bcdfghjklmnpqrstvwxyz])\1+', r'\1', w)\<close>: a consonant followed by one or
  more copies of itself; the run becomes one letter.
\<close>

function collapse_consonant_runs :: "string \<Rightarrow> string" where
  "collapse_consonant_runs [] = []"
| "collapse_consonant_runs (c # cs) =
     (if c \<in> set ''bcdfghjklmnpqrstvwxyz'' \<and> 1 \<le> length (takeWhile (\<lambda>x. x = c) cs)
      then c # collapse_consonant_runs (dropWhile (\<lambda>x. x = c) cs)
      else c # collapse_consonant_runs cs)"
  by pat_completeness auto
termination
  by (relation "measure length") (auto simp: length_dropWhile_le less_Suc_eq_le)

subsection \<open>The phonetic normalizer\<close>

text \<open>
  \<open>_create_phonetic_map\<close>: the dictionary in its insertion order, which is the order
  \<open>normalize_phonetic\<close> iterates it in.
\<close>

definition phonetic_map :: "(string \<times> string) list" where
  "phonetic_map =
     [(''aa'', ''a''), (''aaa'', ''a''), (''aaaa'', ''a''),
      (''ee'', ''e''), (''eee'', ''e''), (''eeee'', ''e''),
      (''ii'', ''i''), (''iii'', ''i''), (''iiii'', ''i''),
      (''oo'', ''o''), (''ooo'', ''o''), (''oooo'', ''o''),
      (''uu'', ''u''), (''uuu'', ''u''), (''uuuu'', ''u''),
      (''ph'', ''f''), (''gh'', ''g''), (''kh'', ''k''), (''th'', ''t''),
      (''ch'', ''c''), (''sh'', ''s''), (''zh'', ''z'')]
     @ map (\<lambda>c. ([c, c], [c])) ''bcdfghjklmnpqrstvwxyz''"

definition normalize_phonetic :: "string \<Rightarrow> string" where
  "normalize_phonetic word =
     (let w = lower word;
          w = fold (\<lambda>(variant, standard) w. str_replace variant standard w) phonetic_map w;
          w = collapse_vowel_runs w;
          w = collapse_consonant_runs w
      in w)"

subsection \<open>Jaro similarity\<close>

text \<open>
  A true division of the source, \<open>x / y\<close> on numbers: it raises \<open>ZeroDivisionError\<close>
  when \<open>y\<close> is zero.
\<close>

definition truediv :: "real \<Rightarrow> real \<Rightarrow> error + real" where
  "truediv x y = (if y = 0 then Inl ZeroDivisionError else Inr (x / y))"

text \<open>
  One round of the first loop of \<open>_jaro_similarity\<close>: character \<open>i\<close> of \<open>s1\<close> takes the
  first position \<open>j\<close> of \<open>range(start, end)\<close> that is still free in \<open>s2\<close> and holds the
  same character. \<open>match_dist\<close> is an integer: it is \<open>-1\<close> when both strings have one
  character, and the range is empty then. Every index read is below \<open>end\<close>, which is at
  most \<open>len2\<close>.
\<close>

definition jaro_match_step ::
  "string \<Rightarrow> string \<Rightarrow> int \<Rightarrow> nat \<Rightarrow> bool list \<times> bool list \<times> nat \<Rightarrow> bool list \<times> bool list \<times> nat" where
  "jaro_match_step s1 s2 match_dist i st =
     (case st of (s1_matches, s2_matches, matches) \<Rightarrow>
        let start = nat (max 0 (int i - match_dist));
            stop = nat (min (int i + match_dist + 1) (int (length s2)))
        in (case find (\<lambda>j. \<not> s2_matches ! j \<and> s1 ! i = s2 ! j) [start..<stop] of
              None \<Rightarrow> (s1_matches, s2_matches, matches)
            | Some j \<Rightarrow> (s1_matches[i := True], s2_matches[j := True], matches + 1)))"

definition jaro_matches :: "string \<Rightarrow> string \<Rightarrow> bool list \<times> bool list \<times> nat" where
  "jaro_matches s1 s2 =
     (let len1 = length s1; len2 = length s2;
          match_dist = int (max len1 len2 div 2) - 1
      in fold (jaro_match_step s1 s2 match_dist) [0..<len1]
           (replicate len1 False, replicate len2 False, 0))"

text \<open>
  \<open>while not s2_matches[k]: k += 1\<close>. Nothing in the loop bounds \<open>k\<close>: reading past the
  end of the list raises \<open>IndexError\<close>.
\<close>

function skip_unmatched :: "bool list \<Rightarrow> nat \<Rightarrow> error + nat" where
  "skip_unmatched s2_matches k =
     (if length s2_matches \<le> k then Inl IndexError
      else if s2_matches ! k then Inr k
      else skip_unmatched s2_matches (k + 1))"
  by pat_completeness auto
termination
  by (relation "measure (\<lambda>(s2_matches, k). length s2_matches - k)") auto

declare skip_unmatched.simps [simp del]

text \<open>The second loop: the state is \<open>(t, k)\<close>, the list is \<open>range(len1)\<close>.\<close>

fun jaro_transpositions ::
  "string \<Rightarrow> string \<Rightarrow> bool list \<Rightarrow> bool list \<Rightarrow> nat list \<Rightarrow> nat \<times> nat \<Rightarrow> error + nat \<times> nat" where
  "jaro_transpositions s1 s2 s1_matches s2_matches [] (t, k) = Inr (t, k)"
| "jaro_transpositions s1 s2 s1_matches s2_matches (i # rest) (t, k) =
     (if s1_matches ! i then
        (case skip_unmatched s2_matches k of
           Inl e \<Rightarrow> Inl e
         | Inr k' \<Rightarrow>
             jaro_transpositions s1 s2 s1_matches s2_matches rest
               (if s1 ! i \<noteq> s2 ! k' then t + 1 else t, k' + 1))
      else jaro_transpositions s1 s2 s1_matches s2_matches rest (t, k))"

definition jaro_similarity :: "string \<Rightarrow> string \<Rightarrow> error + real" where
  "jaro_similarity s1 s2 =
     (if s1 = s2 then Inr 1
      else let len1 = length s1; len2 = length s2 in
        if len1 = 0 \<or> len2 = 0 then Inr 0
        else case jaro_matches s1 s2 of (s1_matches, s2_matches, matches) \<Rightarrow>
          if matches = 0 then Inr 0
          else (case jaro_transpositions s1 s2 s1_matches s2_matches [0..<len1] (0, 0) of
            Inl e \<Rightarrow> Inl e
          | Inr (t, k) \<Rightarrow>
              let t = real t / 2 in
              (case truediv (real matches) (real len1) of Inl e \<Rightarrow> Inl e | Inr x1 \<Rightarrow>
              (case truediv (real matches) (real len2) of Inl e \<Rightarrow> Inl e | Inr x2 \<Rightarrow>
              (case truediv (real matches - t) (real matches) of Inl e \<Rightarrow> Inl e | Inr x3 \<Rightarrow>
                 Inr ((x1 + x2 + x3) / 3))))))"

subsection \<open>The sequence similarity of the standard library\<close>

text \<open>
  \<open>difflib.SequenceMatcher(None, a, b).ratio()\<close> is code of Python's standard library,
  not of the repository. It is modelled after \<open>difflib.py\<close> of CPython, for the way the
  source calls it: \<open>isjunk\<close> is \<open>None\<close>, so the set of junk elements is empty and the two
  loops of \<open>find_longest_match\<close> that extend a match by junk never run; \<open>autojunk\<close> is
  \<open>True\<close>.

  \<open>__chain_b\<close>: \<open>b2j\<close> maps an element to the increasing list of its positions in \<open>b\<close>.
  When \<open>b\<close> has 200 elements or more, the elements that occur more than
  \<open>len(b) // 100 + 1\<close> times are removed from \<open>b2j\<close>. A key that is absent is read with
  \<open>b2j.get(elt, [])\<close>, so \<open>b2j\<close> is a total function here.
\<close>

definition chain_b :: "string \<Rightarrow> char \<Rightarrow> nat list" where
  "chain_b b =
     (let n = length b;
          b2j = (\<lambda>elt. filter (\<lambda>i. b ! i = elt) [0..<n]);
          ntest = n div 100 + 1
      in (\<lambda>elt. if 200 \<le> n \<and> ntest < length (b2j elt) then [] else b2j elt))"

text \<open>
  The inner loop of \<open>find_longest_match\<close>, over the positions \<open>j\<close> of \<open>a[i]\<close> in \<open>b\<close>.
  \<open>j2len\<close> is the dictionary of the previous round, \<open>newj2len\<close> the one being built.
  \<open>j2len.get(j - 1, 0)\<close> at \<open>j = 0\<close> reads the key \<open>-1\<close>, which is never present.
\<close>

fun flm_inner ::
  "(nat \<rightharpoonup> nat) \<Rightarrow> nat \<Rightarrow> nat \<Rightarrow> nat \<Rightarrow> nat list \<Rightarrow>
   (nat \<times> nat \<times> nat) \<times> (nat \<rightharpoonup> nat) \<Rightarrow> (nat \<times> nat \<times> nat) \<times> (nat \<rightharpoonup> nat)" where
  "flm_inner j2len i blo bhi [] st = st"
| "flm_inner j2len i blo bhi (j # js) ((besti, bestj, bestsize), newj2len) =
     (if j < blo then flm_inner j2len i blo bhi js ((besti, bestj, bestsize), newj2len)
      else if bhi \<le> j then ((besti, bestj, bestsize), newj2len)
      else
        let k = (if j = 0 then 0 else case j2len (j - 1) of None \<Rightarrow> 0 | Some v \<Rightarrow> v) + 1
        in flm_inner j2len i blo bhi js
             (if bestsize < k then (i + 1 - k, j + 1 - k, k) else (besti, bestj, bestsize),
              newj2len(j \<mapsto> k)))"

definition flm_outer ::
  "string \<Rightarrow> (char \<Rightarrow> nat list) \<Rightarrow> nat \<Rightarrow> nat \<Rightarrow> nat \<Rightarrow>
   (nat \<times> nat \<times> nat) \<times> (nat \<rightharpoonup> nat) \<Rightarrow> (nat \<times> nat \<times> nat) \<times> (nat \<rightharpoonup> nat)" where
  "flm_outer a b2j blo bhi i st =
     (case st of (best, j2len) \<Rightarrow> flm_inner j2len i blo bhi (b2j (a ! i)) (best, Map.empty))"

text \<open>The two loops that extend the best match by equal elements on each side.\<close>

function extend_left ::
  "string \<Rightarrow> string \<Rightarrow> nat \<Rightarrow> nat \<Rightarrow> nat \<times> nat \<times> nat \<Rightarrow> nat \<times> nat \<times> nat" where
  "extend_left a b alo blo (besti, bestj, bestsize) =
     (if alo < besti \<and> blo < bestj \<and> a ! (besti - 1) = b ! (bestj - 1)
      then extend_left a b alo blo (besti - 1, bestj - 1, bestsize + 1)
      else (besti, bestj, bestsize))"
  by pat_completeness auto
termination
  by (relation "measure (\<lambda>(a, b, alo, blo, besti, bestj, bestsize). besti)") auto

declare extend_left.simps [simp del]

function extend_right ::
  "string \<Rightarrow> string \<Rightarrow> nat \<Rightarrow> nat \<Rightarrow> nat \<times> nat \<times> nat \<Rightarrow> nat \<times> nat \<times> nat" where
  "extend_right a b ahi bhi (besti, bestj, bestsize) =
     (if besti + bestsize < ahi \<and> bestj + bestsize < bhi
         \<and> a ! (besti + bestsize) = b ! (bestj + bestsize)
      then extend_right a b ahi bhi (besti, bestj, bestsize + 1)
      else (besti, bestj, bestsize))"
  by pat_completeness auto
termination
  by (relation "measure (\<lambda>(a, b, ahi, bhi, besti, bestj, bestsize). ahi - (besti + bestsize))")
    auto

declare extend_right.simps [simp del]

definition find_longest_match ::
  "string \<Rightarrow> string \<Rightarrow> (char \<Rightarrow> nat list) \<Rightarrow> nat \<Rightarrow> nat \<Rightarrow> nat \<Rightarrow> nat \<Rightarrow> nat \<times> nat \<times> nat" where
  "find_longest_match a b b2j alo ahi blo bhi =
     (let best = fst (fold (flm_outer a b2j blo bhi) [alo..<ahi] ((alo, blo, 0), Map.empty));
          best = extend_left a b alo blo best;
          best = extend_right a b ahi bhi best
      in best)"

text \<open>
  The loop of \<open>get_matching_blocks\<close> below terminates because a match of positive
  size lies inside the two windows it was searched in. The
  dictionary \<open>j2len\<close> holds, for the positions \<open>j\<close> of the window of \<open>b\<close>, lengths of
  matches that end at \<open>a[i - 1]\<close> and \<open>b[j]\<close>, so no length exceeds what lies to the left.
\<close>

definition j2len_ok :: "nat \<Rightarrow> nat \<Rightarrow> nat \<Rightarrow> (nat \<rightharpoonup> nat) \<Rightarrow> bool" where
  "j2len_ok alo blo i j2len \<longleftrightarrow>
     (\<forall>j v. j2len j = Some v \<longrightarrow> blo \<le> j \<and> v \<le> j + 1 - blo \<and> v \<le> i - alo)"

definition best_ok :: "nat \<Rightarrow> nat \<Rightarrow> nat \<Rightarrow> nat \<Rightarrow> nat \<times> nat \<times> nat \<Rightarrow> bool" where
  "best_ok alo ahi blo bhi best \<longleftrightarrow>
     (case best of (i, j, k) \<Rightarrow>
        (k = 0 \<and> i = alo \<and> j = blo) \<or> (alo \<le> i \<and> i + k \<le> ahi \<and> blo \<le> j \<and> j + k \<le> bhi))"

lemma flm_inner_ok:
  "j2len_ok alo blo i j2len \<Longrightarrow> alo \<le> i \<Longrightarrow> i < ahi \<Longrightarrow>
   best_ok alo ahi blo bhi (fst st) \<Longrightarrow> j2len_ok alo blo (Suc i) (snd st) \<Longrightarrow>
   best_ok alo ahi blo bhi (fst (flm_inner j2len i blo bhi js st)) \<and>
   j2len_ok alo blo (Suc i) (snd (flm_inner j2len i blo bhi js st))"
proof (induction j2len i blo bhi js st rule: flm_inner.induct)
  case (1 j2len i blo bhi st)
  then show ?case by simp
next
  case (2 j2len i blo bhi j js besti bestj bestsize newj2len)
  show ?case
  proof (cases "j < blo")
    case True
    with 2 show ?thesis by simp
  next
    case False
    note jblo = this
    show ?thesis
    proof (cases "bhi \<le> j")
      case True
      with jblo 2 show ?thesis by simp
    next
      case False
      define k where "k = (if j = 0 then 0 else case j2len (j - 1) of None \<Rightarrow> 0 | Some v \<Rightarrow> v) + 1"
      have prev: "j2len (j - 1) = Some v \<Longrightarrow> j \<noteq> 0 \<Longrightarrow> blo \<le> j - 1 \<and> v \<le> j - blo \<and> v \<le> i - alo" for v
        using "2.prems"(1) unfolding j2len_ok_def by fastforce
      have kb: "k \<le> j + 1 - blo \<and> k \<le> Suc i - alo \<and> 0 < k"
      proof (cases "j = 0 \<or> j2len (j - 1) = None")
        case True
        then have "k = 1" by (auto simp: k_def)
        then show ?thesis using jblo "2.prems"(2) by auto
      next
        case False
        then obtain v where v: "j2len (j - 1) = Some v" and j0: "j \<noteq> 0" by auto
        then have "k = v + 1" by (simp add: k_def)
        then show ?thesis using prev[OF v j0] jblo "2.prems"(2) j0 by auto
      qed
      let ?st = "(if bestsize < k then (i + 1 - k, j + 1 - k, k) else (besti, bestj, bestsize),
                  newj2len(j \<mapsto> k))"
      have b1: "best_ok alo ahi blo bhi (fst ?st)"
        using kb "2.prems" jblo False by (auto simp: best_ok_def)
      have b2: "j2len_ok alo blo (Suc i) (snd ?st)"
        using kb "2.prems"(5) jblo by (auto simp: j2len_ok_def)
      have "best_ok alo ahi blo bhi (fst (flm_inner j2len i blo bhi js ?st)) \<and>
            j2len_ok alo blo (Suc i) (snd (flm_inner j2len i blo bhi js ?st))"
        by (rule "2.IH"(2)[OF jblo False k_def "2.prems"(1,2,3) b1 b2])
      moreover have "flm_inner j2len i blo bhi (j # js) ((besti, bestj, bestsize), newj2len)
                     = flm_inner j2len i blo bhi js ?st"
        using jblo False by (simp add: k_def Let_def)
      ultimately show ?thesis by (simp only:)
    qed
  qed
qed


lemma flm_outer_ok:
  "alo \<le> i \<Longrightarrow> i < ahi \<Longrightarrow> best_ok alo ahi blo bhi (fst st) \<Longrightarrow> j2len_ok alo blo i (snd st) \<Longrightarrow>
   best_ok alo ahi blo bhi (fst (flm_outer a b2j blo bhi i st)) \<and>
   j2len_ok alo blo (Suc i) (snd (flm_outer a b2j blo bhi i st))"
proof -
  assume h: "alo \<le> i" "i < ahi" "best_ok alo ahi blo bhi (fst st)" "j2len_ok alo blo i (snd st)"
  obtain best j2len where st: "st = (best, j2len)" by (cases st)
  have e: "j2len_ok alo blo (Suc i) (snd (best, Map.empty))" by (simp add: j2len_ok_def)
  have b: "best_ok alo ahi blo bhi (fst (best, Map.empty :: nat \<rightharpoonup> nat))" using h(3) st by simp
  show ?thesis
    using flm_inner_ok[OF _ h(1,2) b e, of j2len "b2j (a ! i)"] h(4) st
    by (simp add: flm_outer_def)
qed

lemma flm_fold_ok:
  "alo \<le> lo \<Longrightarrow> hi \<le> ahi \<Longrightarrow>
   best_ok alo ahi blo bhi (fst st) \<Longrightarrow> j2len_ok alo blo lo (snd st) \<Longrightarrow>
   best_ok alo ahi blo bhi (fst (fold (flm_outer a b2j blo bhi) [lo..<hi] st))"
proof (induction "hi - lo" arbitrary: lo st)
  case 0
  then show ?case by simp
next
  case (Suc n)
  then have lt: "lo < hi" by simp
  have step: "best_ok alo ahi blo bhi (fst (flm_outer a b2j blo bhi lo st)) \<and>
        j2len_ok alo blo (Suc lo) (snd (flm_outer a b2j blo bhi lo st))"
    using flm_outer_ok[of alo lo ahi blo bhi st a b2j] Suc.prems lt by simp
  have "best_ok alo ahi blo bhi
     (fst (fold (flm_outer a b2j blo bhi) [Suc lo..<hi] (flm_outer a b2j blo bhi lo st)))"
    using Suc.hyps(1)[of "Suc lo" "flm_outer a b2j blo bhi lo st"] Suc.hyps(2) step Suc.prems(1,2)
    by simp
  then show ?case using lt by (simp add: upt_conv_Cons)
qed

lemma extend_left_ok:
  "best_ok alo ahi blo bhi best \<Longrightarrow> best_ok alo ahi blo bhi (extend_left a b alo blo best)"
proof (induction a b alo blo best rule: extend_left.induct)
  case (1 a b alo blo besti bestj bestsize)
  show ?case
  proof (cases "alo < besti \<and> blo < bestj \<and> a ! (besti - 1) = b ! (bestj - 1)")
    case True
    have "best_ok alo ahi blo bhi (besti - 1, bestj - 1, bestsize + 1)"
      using "1.prems" True by (auto simp: best_ok_def)
    from "1.IH"[OF True this] True show ?thesis
      by (subst extend_left.simps) simp
  next
    case False
    then show ?thesis using "1.prems" by (subst extend_left.simps) auto
  qed
qed

lemma extend_right_ok:
  "best_ok alo ahi blo bhi best \<Longrightarrow> best_ok alo ahi blo bhi (extend_right a b ahi bhi best)"
proof (induction a b ahi bhi best rule: extend_right.induct)
  case (1 a b ahi bhi besti bestj bestsize)
  show ?case
  proof (cases "besti + bestsize < ahi \<and> bestj + bestsize < bhi
         \<and> a ! (besti + bestsize) = b ! (bestj + bestsize)")
    case True
    have "best_ok alo ahi blo bhi (besti, bestj, bestsize + 1)"
      using "1.prems" True by (auto simp: best_ok_def)
    from "1.IH"[OF True this] True show ?thesis
      by (subst extend_right.simps) simp
  next
    case False
    then show ?thesis using "1.prems" by (subst extend_right.simps) auto
  qed
qed

lemma find_longest_match_ok:
  "best_ok alo ahi blo bhi (find_longest_match a b b2j alo ahi blo bhi)"
proof -
  have "best_ok alo ahi blo bhi
     (fst (fold (flm_outer a b2j blo bhi) [alo..<ahi] ((alo, blo, 0), Map.empty)))"
    by (rule flm_fold_ok) (simp_all add: best_ok_def j2len_ok_def)
  then show ?thesis
    by (simp add: find_longest_match_def Let_def extend_left_ok extend_right_ok)
qed

lemma find_longest_match_bounds:
  "(i, j, k) = find_longest_match a b b2j alo ahi blo bhi \<Longrightarrow> 0 < k \<Longrightarrow>
   alo \<le> i \<and> i + k \<le> ahi \<and> blo \<le> j \<and> j + k \<le> bhi"
  using find_longest_match_ok[of alo ahi blo bhi a b b2j] by (auto simp: best_ok_def)

text \<open>
  The loop of \<open>get_matching_blocks\<close>. \<open>queue\<close> is used as a stack: \<open>queue.pop()\<close>
  takes the last element and \<open>queue.append\<close> adds after it, so the model keeps the
  list reversed, its head being the last element of the Python list.
\<close>

function matching_blocks_loop ::
  "string \<Rightarrow> string \<Rightarrow> (char \<Rightarrow> nat list) \<Rightarrow> (nat \<times> nat \<times> nat \<times> nat) list \<Rightarrow>
   (nat \<times> nat \<times> nat) list \<Rightarrow> (nat \<times> nat \<times> nat) list" where
  "matching_blocks_loop a b b2j [] matching_blocks = matching_blocks"
| "matching_blocks_loop a b b2j ((alo, ahi, blo, bhi) # queue) matching_blocks =
     (case find_longest_match a b b2j alo ahi blo bhi of (i, j, k) \<Rightarrow>
        if k \<noteq> 0 then
          matching_blocks_loop a b b2j
            ((if i + k < ahi \<and> j + k < bhi then [(i + k, ahi, j + k, bhi)] else [])
             @ (if alo < i \<and> blo < j then [(alo, i, blo, j)] else [])
             @ queue)
            (matching_blocks @ [(i, j, k)])
        else matching_blocks_loop a b b2j queue matching_blocks)"
  by pat_completeness auto
termination
proof (relation "measure (\<lambda>(a, b, b2j, queue, blocks).
          sum_list (map (\<lambda>(alo, ahi, blo, bhi). 2 * (ahi - alo) + 1) queue))", goal_cases)
  case 1
  show ?case by simp
next
  case (2 a b b2j alo ahi blo bhi queue matching_blocks i y j k)
  then have m: "(i, j, k) = find_longest_match a b b2j alo ahi blo bhi" and k: "0 < k"
    by simp_all
  from find_longest_match_bounds[OF m k] k show ?case by auto
next
  case 3
  then show ?case by simp
qed

declare matching_blocks_loop.simps [simp del]

text \<open>
  The rest of \<open>get_matching_blocks\<close>: the blocks are sorted (tuples compare
  lexicographically), adjacent blocks are merged, and the sentinel \<open>(la, lb, 0)\<close> is
  appended. The state of the merging loop is \<open>(i1, j1, k1)\<close>.
\<close>

fun collapse_adjacent ::
  "nat \<times> nat \<times> nat \<Rightarrow> (nat \<times> nat \<times> nat) list \<Rightarrow> (nat \<times> nat \<times> nat) list \<Rightarrow>
   (nat \<times> nat \<times> nat) list" where
  "collapse_adjacent (i1, j1, k1) [] non_adjacent =
     (if k1 \<noteq> 0 then non_adjacent @ [(i1, j1, k1)] else non_adjacent)"
| "collapse_adjacent (i1, j1, k1) ((i2, j2, k2) # rest) non_adjacent =
     (if i1 + k1 = i2 \<and> j1 + k1 = j2
      then collapse_adjacent (i1, j1, k1 + k2) rest non_adjacent
      else collapse_adjacent (i2, j2, k2) rest
             (if k1 \<noteq> 0 then non_adjacent @ [(i1, j1, k1)] else non_adjacent))"

definition get_matching_blocks :: "string \<Rightarrow> string \<Rightarrow> (nat \<times> nat \<times> nat) list" where
  "get_matching_blocks a b =
     (let la = length a; lb = length b;
          matching_blocks = matching_blocks_loop a b (chain_b b) [(0, la, 0, lb)] [];
          non_adjacent = collapse_adjacent (0, 0, 0) (sort matching_blocks) []
      in non_adjacent @ [(la, lb, 0)])"

text \<open>
  \<open>ratio\<close> with \<open>_calculate_ratio\<close>: \<open>2.0 * matches / length\<close> when \<open>length\<close> is not
  zero (the test stands right before the division), and \<open>1.0\<close> otherwise.
\<close>

definition ratio :: "string \<Rightarrow> string \<Rightarrow> real" where
  "ratio a b =
     (let matches = sum_list (map (\<lambda>(i, j, k). k) (get_matching_blocks a b));
          len = length a + length b
      in if len \<noteq> 0 then 2 * real matches / real len else 1)"

subsection \<open>The composite score\<close>

definition calculate_similarity_score :: "string \<Rightarrow> string \<Rightarrow> error + real" where
  "calculate_similarity_score w1 w2 =
     (if lower w1 = lower w2 then Inr 1
      else
        let seq_sim = ratio (lower w1) (lower w2);
            phon_sim = ratio (normalize_phonetic w1) (normalize_phonetic w2);
            ld = \<bar>int (length w1) - int (length w2)\<bar>
        in (case truediv (real_of_int ld) (real (max (length w1) (length w2))) of
              Inl e \<Rightarrow> Inl e
            | Inr q \<Rightarrow>
                let lp = 1 - q in
                (case jaro_similarity (lower w1) (lower w2) of
                   Inl e \<Rightarrow> Inl e
                 | Inr jaro \<Rightarrow>
                     Inr (seq_sim * (3 / 10) + phon_sim * (4 / 10) + lp * (1 / 10)
                          + jaro * (2 / 10)))))"

subsection \<open>The reference dictionary and the matcher\<close>

text \<open>
  The state of a corrector. \<open>reference_words\<close> is a Python set: the list holds its
  elements once each, in the order in which \<open>for ref in self.reference_words\<close> visits
  them. \<open>word_variants\<close> is the \<open>defaultdict(list)\<close>; the test \<open>lw in self.word_variants\<close>
  reads it without adding a key. \<open>phonetic_map\<close> is the constant above.
\<close>

record corrector =
  reference_words :: "string list"
  word_variants :: "string \<rightharpoonup> string list"

text \<open>
  \<open>str.strip\<close>: the white space of Python among the code points below 256.
\<close>

definition isspace :: "char \<Rightarrow> bool" where
  "isspace c =
     (let n = (of_char c :: nat)
      in (9 \<le> n \<and> n \<le> 13) \<or> (28 \<le> n \<and> n \<le> 32) \<or> n = 133 \<or> n = 160)"

definition strip :: "string \<Rightarrow> string" where
  "strip w = rev (dropWhile isspace (rev (dropWhile isspace w)))"

text \<open>
  \<open>load_reference_dictionary\<close>, from the lines of the file on. Where a new word enters
  the iteration order of the set is not fixed by Python; the model puts it last. The
  theorems below are stated for every corrector, whatever the order of its list.
\<close>

fun load_lines :: "string list \<Rightarrow> corrector \<Rightarrow> corrector" where
  "load_lines [] c = c"
| "load_lines (line # rest) c =
     (let word = strip line
      in if word \<noteq> [] then
           load_lines rest
             (c\<lparr>reference_words :=
                  (if word \<in> set (reference_words c) then reference_words c
                   else reference_words c @ [word]),
                word_variants :=
                  (word_variants c)(lower word \<mapsto>
                     (case word_variants c (lower word) of None \<Rightarrow> [] | Some ws \<Rightarrow> ws)
                     @ [word])\<rparr>)
         else load_lines rest c)"

definition load_reference_dictionary :: "string list \<Rightarrow> corrector" where
  "load_reference_dictionary lines =
     load_lines lines \<lparr>reference_words = [], word_variants = Map.empty\<rparr>"

text \<open>
  The loop of \<open>find_best_match\<close> over the reference words; the state is
  \<open>(best, best_score)\<close>. The scorer is a parameter of the loop, the method
  \<open>calculate_similarity_score\<close> in \<open>find_best_match\<close> itself.
\<close>

fun scan_references ::
  "(string \<Rightarrow> string \<Rightarrow> error + real) \<Rightarrow> string \<Rightarrow> real \<Rightarrow> string list \<Rightarrow>
   string \<times> real \<Rightarrow> error + string \<times> real" where
  "scan_references scorer error_word threshold [] (best, best_score) = Inr (best, best_score)"
| "scan_references scorer error_word threshold (ref # refs) (best, best_score) =
     (case scorer error_word ref of
        Inl e \<Rightarrow> Inl e
      | Inr score \<Rightarrow>
          scan_references scorer error_word threshold refs
            (if threshold \<le> score \<and> best_score < score then (ref, score)
             else (best, best_score)))"

definition find_best_match_by ::
  "(string \<Rightarrow> string \<Rightarrow> error + real) \<Rightarrow> corrector \<Rightarrow> string \<Rightarrow> real \<Rightarrow> error + string" where
  "find_best_match_by scorer c error_word threshold =
     (let lw = lower error_word
      in case word_variants c lw of
           Some ws \<Rightarrow> (case ws of [] \<Rightarrow> Inl IndexError | w # _ \<Rightarrow> Inr w)
         | None \<Rightarrow>
             (case scan_references scorer error_word threshold (reference_words c)
                     (error_word, 0) of
                Inl e \<Rightarrow> Inl e
              | Inr (best, best_score) \<Rightarrow> Inr best))"

definition find_best_match :: "corrector \<Rightarrow> string \<Rightarrow> real \<Rightarrow> error + string" where
  "find_best_match = find_best_match_by calculate_similarity_score"

section \<open>Properties of the scorer and of the scan\<close>

subsection \<open>The sequence similarity lies between 0 and 1\<close>

text \<open>The matched characters never exceed either string.\<close>

definition size_sum :: "(nat \<times> nat \<times> nat) list \<Rightarrow> nat" where
  "size_sum blocks = sum_list (map (\<lambda>(i, j, k). k) blocks)"

lemma size_sum_simps [simp]:
  "size_sum [] = 0"
  "size_sum ((i, j, k) # blocks) = k + size_sum blocks"
  "size_sum (xs @ ys) = size_sum xs + size_sum ys"
  by (simp_all add: size_sum_def)

definition a_room :: "(nat \<times> nat \<times> nat \<times> nat) list \<Rightarrow> nat" where
  "a_room queue = sum_list (map (\<lambda>(alo, ahi, blo, bhi). ahi - alo) queue)"

definition b_room :: "(nat \<times> nat \<times> nat \<times> nat) list \<Rightarrow> nat" where
  "b_room queue = sum_list (map (\<lambda>(alo, ahi, blo, bhi). bhi - blo) queue)"

lemma matching_blocks_loop_room:
  "size_sum (matching_blocks_loop a b b2j queue blocks) \<le> size_sum blocks + a_room queue \<and>
   size_sum (matching_blocks_loop a b b2j queue blocks) \<le> size_sum blocks + b_room queue"
proof (induction a b b2j queue blocks rule: matching_blocks_loop.induct)
  case (1 a b b2j matching_blocks)
  show ?case by (simp add: matching_blocks_loop.simps)
next
  case (2 a b b2j alo ahi blo bhi queue matching_blocks)
  obtain i j k where m: "find_longest_match a b b2j alo ahi blo bhi = (i, j, k)"
    by (cases "find_longest_match a b b2j alo ahi blo bhi") auto
  show ?case
  proof (cases "k = 0")
    case True
    have "matching_blocks_loop a b b2j ((alo, ahi, blo, bhi) # queue) matching_blocks
          = matching_blocks_loop a b b2j queue matching_blocks"
      using m True by (simp add: matching_blocks_loop.simps)
    moreover have "size_sum (matching_blocks_loop a b b2j queue matching_blocks)
             \<le> size_sum matching_blocks + a_room queue \<and>
          size_sum (matching_blocks_loop a b b2j queue matching_blocks)
             \<le> size_sum matching_blocks + b_room queue"
      using "2.IH"(2)[OF m[symmetric] refl] True by simp
    ultimately show ?thesis by (simp add: a_room_def b_room_def)
  next
    case False
    let ?q = "(if i + k < ahi \<and> j + k < bhi then [(i + k, ahi, j + k, bhi)] else [])
             @ (if alo < i \<and> blo < j then [(alo, i, blo, j)] else []) @ queue"
    have bounds: "alo \<le> i \<and> i + k \<le> ahi \<and> blo \<le> j \<and> j + k \<le> bhi"
      using find_longest_match_bounds[OF m[symmetric]] False by simp
    have eq: "matching_blocks_loop a b b2j ((alo, ahi, blo, bhi) # queue) matching_blocks
          = matching_blocks_loop a b b2j ?q (matching_blocks @ [(i, j, k)])"
      using m False by (simp add: matching_blocks_loop.simps)
    have ih: "size_sum (matching_blocks_loop a b b2j ?q (matching_blocks @ [(i, j, k)]))
             \<le> size_sum (matching_blocks @ [(i, j, k)]) + a_room ?q \<and>
          size_sum (matching_blocks_loop a b b2j ?q (matching_blocks @ [(i, j, k)]))
             \<le> size_sum (matching_blocks @ [(i, j, k)]) + b_room ?q"
      using "2.IH"(1)[OF m[symmetric] refl] False by simp
    have ra: "k + a_room ?q \<le> a_room ((alo, ahi, blo, bhi) # queue)"
      using bounds by (auto simp: a_room_def)
    have rb: "k + b_room ?q \<le> b_room ((alo, ahi, blo, bhi) # queue)"
      using bounds by (auto simp: b_room_def)
    show ?thesis unfolding eq using ih ra rb by simp
  qed
qed

lemma size_sum_sort: "size_sum (sort blocks) = size_sum blocks"
proof -
  have "sum_mset (image_mset (\<lambda>(i, j, k). k) (mset (sort blocks)))
        = sum_mset (image_mset (\<lambda>(i, j, k). k) (mset blocks))"
    by simp
  then show ?thesis
    unfolding size_sum_def by (simp only: sum_mset_sum_list[symmetric] mset_map)
qed

lemma size_sum_collapse_adjacent:
  "size_sum (collapse_adjacent st rest non_adjacent)
   = size_sum non_adjacent + snd (snd st) + size_sum rest"
  by (induction st rest non_adjacent rule: collapse_adjacent.induct) auto

lemma size_sum_get_matching_blocks:
  "size_sum (get_matching_blocks a b) \<le> length a \<and>
   size_sum (get_matching_blocks a b) \<le> length b"
  using matching_blocks_loop_room[of a b "chain_b b" "[(0, length a, 0, length b)]" "[]"]
  by (simp add: get_matching_blocks_def Let_def size_sum_collapse_adjacent size_sum_sort
      a_room_def b_room_def)

lemma ratio_range: "0 \<le> ratio a b \<and> ratio a b \<le> 1"
proof -
  let ?m = "size_sum (get_matching_blocks a b)"
  have "2 * ?m \<le> length a + length b"
    using size_sum_get_matching_blocks[of a b] by simp
  then have "2 * real ?m \<le> real (length a + length b)"
    by (metis of_nat_le_iff of_nat_mult of_nat_numeral)
  then show ?thesis
    by (simp add: ratio_def Let_def size_sum_def divide_le_eq)
qed

lemma ratio_empty:
  "a = [] \<or> b = [] \<Longrightarrow> a \<noteq> b \<Longrightarrow> ratio a b = 0"
proof -
  assume h: "a = [] \<or> b = []" "a \<noteq> b"
  have "size_sum (get_matching_blocks a b) = 0"
    using size_sum_get_matching_blocks[of a b] h(1) by auto
  then show ?thesis using h by (auto simp: ratio_def Let_def size_sum_def)
qed

subsection \<open>Jaro similarity returns, and its value lies between 0 and 1\<close>

definition trues :: "bool list \<Rightarrow> nat" where
  "trues xs = length (filter (\<lambda>x. x) xs)"

lemma trues_le_length: "trues xs \<le> length xs"
  by (simp add: trues_def)

lemma trues_replicate_False [simp]: "trues (replicate n False) = 0"
  by (simp add: trues_def)

lemma trues_update_le: "trues (xs[i := True]) \<le> trues xs + 1"
  by (induction xs arbitrary: i) (auto simp: trues_def split: nat.splits)

lemma trues_update_new:
  "i < length xs \<Longrightarrow> \<not> xs ! i \<Longrightarrow> trues (xs[i := True]) = trues xs + 1"
  by (induction xs arbitrary: i) (auto simp: trues_def split: nat.splits)

lemma find_SomeD: "find P xs = Some x \<Longrightarrow> x \<in> set xs \<and> P x"
  by (induction xs) (auto split: if_splits)

lemma fold_upt_invariant:
  assumes "P lo st" and "lo \<le> hi"
    and "\<And>i st. lo \<le> i \<Longrightarrow> i < hi \<Longrightarrow> P i st \<Longrightarrow> P (Suc i) (f i st)"
  shows "P hi (fold f [lo..<hi] st)"
  using assms(2,3)
proof (induction hi)
  case 0
  then show ?case using assms(1) by simp
next
  case (Suc hi)
  show ?case
  proof (cases "lo = Suc hi")
    case True
    then show ?thesis using assms(1) by simp
  next
    case False
    then have le: "lo \<le> hi" using Suc.prems(1) by simp
    have "P hi (fold f [lo..<hi] st)"
      using Suc.IH[OF le] Suc.prems(2) by simp
    then have "P (Suc hi) (f hi (fold f [lo..<hi] st))"
      using Suc.prems(2)[of hi] le by simp
    then show ?thesis using le by simp
  qed
qed

definition jaro_inv :: "nat \<Rightarrow> nat \<Rightarrow> nat \<Rightarrow> bool list \<times> bool list \<times> nat \<Rightarrow> bool" where
  "jaro_inv len1 len2 i st \<longleftrightarrow>
     (case st of (s1_matches, s2_matches, matches) \<Rightarrow>
        length s1_matches = len1 \<and> length s2_matches = len2 \<and> matches \<le> i
        \<and> trues s1_matches \<le> matches \<and> trues s2_matches = matches)"

lemma jaro_match_step_inv:
  assumes "jaro_inv len1 (length s2) i st"
  shows "jaro_inv len1 (length s2) (Suc i) (jaro_match_step s1 s2 match_dist i st)"
proof -
  obtain m1 m2 m where st: "st = (m1, m2, m)" by (cases st)
  let ?stop = "nat (min (int i + match_dist + 1) (int (length s2)))"
  let ?start = "nat (max 0 (int i - match_dist))"
  show ?thesis
  proof (cases "find (\<lambda>j. \<not> m2 ! j \<and> s1 ! i = s2 ! j) [?start..<?stop]")
    case None
    then show ?thesis using assms st by (simp add: jaro_match_step_def jaro_inv_def Let_def)
  next
    case (Some j)
    then have "j \<in> set [?start..<?stop]" and free: "\<not> m2 ! j"
      by (auto dest: find_SomeD)
    then have "j < ?stop" by simp
    then have j: "j < length m2" using assms st by (simp add: jaro_inv_def)
    have "trues (m2[j := True]) = trues m2 + 1"
      by (rule trues_update_new[OF j free])
    moreover have "trues (m1[i := True]) \<le> trues m1 + 1"
      by (rule trues_update_le)
    ultimately show ?thesis
      using assms st Some by (simp add: jaro_match_step_def jaro_inv_def Let_def)
  qed
qed

lemma jaro_matches_inv:
  "jaro_inv (length s1) (length s2) (length s1) (jaro_matches s1 s2)"
proof -
  let ?d = "int (max (length s1) (length s2) div 2) - 1"
  have "jaro_inv (length s1) (length s2) (length s1)
          (fold (jaro_match_step s1 s2 ?d) [0..<length s1]
             (replicate (length s1) False, replicate (length s2) False, 0))"
  proof (rule fold_upt_invariant[where P = "jaro_inv (length s1) (length s2)"])
    show "jaro_inv (length s1) (length s2) 0
            (replicate (length s1) False, replicate (length s2) False, 0)"
      by (simp add: jaro_inv_def)
  qed (simp_all add: jaro_match_step_inv)
  then show ?thesis by (simp add: jaro_matches_def Let_def)
qed

lemma skip_unmatched_returns:
  "0 < trues (drop k s2_matches) \<Longrightarrow>
   \<exists>k'. skip_unmatched s2_matches k = Inr k' \<and> k' < length s2_matches
        \<and> Suc (trues (drop (Suc k') s2_matches)) = trues (drop k s2_matches)"
proof (induction s2_matches k rule: skip_unmatched.induct)
  case (1 s2_matches k)
  have lt: "k < length s2_matches"
    using "1.prems" by (cases "k < length s2_matches") (simp_all add: trues_def)
  have split: "drop k s2_matches = s2_matches ! k # drop (Suc k) s2_matches"
    using lt by (simp add: Cons_nth_drop_Suc)
  show ?case
  proof (cases "s2_matches ! k")
    case True
    have "skip_unmatched s2_matches k = Inr k"
      using lt True by (subst skip_unmatched.simps) simp
    moreover have "Suc (trues (drop (Suc k) s2_matches)) = trues (drop k s2_matches)"
      using True arg_cong[OF split, of trues] by (simp add: trues_def)
    ultimately show ?thesis using lt by blast
  next
    case False
    have same: "trues (drop (Suc k) s2_matches) = trues (drop k s2_matches)"
      using False arg_cong[OF split, of trues] by (simp add: trues_def)
    have "\<exists>k'. skip_unmatched s2_matches (k + 1) = Inr k' \<and> k' < length s2_matches
        \<and> Suc (trues (drop (Suc k') s2_matches)) = trues (drop (k + 1) s2_matches)"
      using "1.IH" lt False "1.prems" same by simp
    moreover have "skip_unmatched s2_matches k = skip_unmatched s2_matches (k + 1)"
      using lt False by (subst skip_unmatched.simps) simp
    ultimately show ?thesis using same by simp
  qed
qed

lemma jaro_transpositions_returns:
  "lo \<le> hi \<Longrightarrow> hi \<le> length s1_matches \<Longrightarrow>
   trues (drop lo (take hi s1_matches)) \<le> trues (drop k s2_matches) \<Longrightarrow>
   \<exists>t' k'. jaro_transpositions s1 s2 s1_matches s2_matches [lo..<hi] (t, k) = Inr (t', k')
          \<and> t' \<le> t + trues (drop lo (take hi s1_matches))"
proof (induction "hi - lo" arbitrary: lo t k)
  case 0
  then show ?case by simp
next
  case (Suc n)
  then have lt: "lo < hi" by simp
  have upt: "[lo..<hi] = lo # [Suc lo..<hi]" using lt by (simp add: upt_conv_Cons)
  have split: "drop lo (take hi s1_matches) = s1_matches ! lo # drop (Suc lo) (take hi s1_matches)"
    using lt Suc.prems(2) by (simp add: Cons_nth_drop_Suc[symmetric])
  have n: "n = hi - Suc lo" using Suc.hyps(2) by simp
  show ?case
  proof (cases "s1_matches ! lo")
    case False
    have same: "trues (drop (Suc lo) (take hi s1_matches)) = trues (drop lo (take hi s1_matches))"
      using False arg_cong[OF split, of trues] by (simp add: trues_def)
    from Suc.hyps(1)[OF n, of k t] lt Suc.prems same
    show ?thesis using False by (simp add: upt)
  next
    case True
    have more: "Suc (trues (drop (Suc lo) (take hi s1_matches))) = trues (drop lo (take hi s1_matches))"
      using True arg_cong[OF split, of trues] by (simp add: trues_def)
    then have "0 < trues (drop k s2_matches)" using Suc.prems(3) by simp
    from skip_unmatched_returns[OF this] obtain k' where
      k': "skip_unmatched s2_matches k = Inr k'"
      "Suc (trues (drop (Suc k') s2_matches)) = trues (drop k s2_matches)"
      by blast
    let ?t = "if s1 ! lo \<noteq> s2 ! k' then t + 1 else t"
    have "trues (drop (Suc lo) (take hi s1_matches)) \<le> trues (drop (Suc k') s2_matches)"
      using more k'(2) Suc.prems(3) by simp
    from Suc.hyps(1)[OF n _ Suc.prems(2) this, of ?t] lt
    obtain t' k'' where
      r: "jaro_transpositions s1 s2 s1_matches s2_matches [Suc lo..<hi] (?t, Suc k') = Inr (t', k'')"
         "t' \<le> ?t + trues (drop (Suc lo) (take hi s1_matches))"
      by auto
    have "jaro_transpositions s1 s2 s1_matches s2_matches [lo..<hi] (t, k) = Inr (t', k'')"
      using True k'(1) r(1) by (simp add: upt)
    moreover have "t' \<le> t + trues (drop lo (take hi s1_matches))"
      using r(2) more by (simp split: if_splits)
    ultimately show ?thesis by blast
  qed
qed

lemma jaro_similarity_range:
  "\<exists>x. jaro_similarity s1 s2 = Inr x \<and> 0 \<le> x \<and> x \<le> 1"
proof -
  obtain m1 m2 m where jm: "jaro_matches s1 s2 = (m1, m2, m)"
    by (cases "jaro_matches s1 s2") auto
  have inv: "length m1 = length s1" "length m2 = length s2" "m \<le> length s1"
    "trues m1 \<le> m" "trues m2 = m"
    using jaro_matches_inv[of s1 s2] jm by (simp_all add: jaro_inv_def)
  have mlen2: "m \<le> length s2" using inv(2,5) trues_le_length[of m2] by simp
  show ?thesis
  proof (cases "s1 = s2 \<or> length s1 = 0 \<or> length s2 = 0 \<or> m = 0")
    case True
    then show ?thesis using jm by (auto simp: jaro_similarity_def Let_def)
  next
    case False
    have "trues (drop 0 (take (length s1) m1)) \<le> trues (drop 0 m2)"
      using inv by simp
    from jaro_transpositions_returns[OF _ _ this, of s1 s2 0] inv(1)
    obtain t k where
      tr: "jaro_transpositions s1 s2 m1 m2 [0..<length s1] (0, 0) = Inr (t, k)" and
      tm: "t \<le> trues m1"
      by auto
    let ?x = "(real m / real (length s1) + real m / real (length s2)
               + (real m - real t / 2) / real m) / 3"
    have v: "jaro_similarity s1 s2 = Inr ?x"
      using False jm tr by (simp add: jaro_similarity_def Let_def truediv_def)
    have mpos: "0 < real m" using False by simp
    have t: "real t \<le> real m" using tm inv(4) by simp
    have a: "0 \<le> real m / real (length s1) \<and> real m / real (length s1) \<le> 1"
      using inv(3) False by (simp add: divide_le_eq)
    have b: "0 \<le> real m / real (length s2) \<and> real m / real (length s2) \<le> 1"
      using mlen2 False by (simp add: divide_le_eq)
    have c: "0 \<le> (real m - real t / 2) / real m \<and> (real m - real t / 2) / real m \<le> 1"
      using t mpos by (simp add: divide_le_eq)
    have "0 \<le> ?x \<and> ?x \<le> 1" using a b c by simp
    then show ?thesis using v by blast
  qed
qed

subsection \<open>The composite score returns, and its value lies between 0 and 1\<close>

lemma length_lower [simp]: "length (lower w) = length w"
  by (simp add: lower_def)

lemma lower_Nil_iff [simp]: "lower w = [] \<longleftrightarrow> w = []"
  by (simp add: lower_def)

lemma score_unfold:
  assumes "lower w1 \<noteq> lower w2"
  shows "\<exists>j. jaro_similarity (lower w1) (lower w2) = Inr j \<and> 0 \<le> j \<and> j \<le> 1 \<and>
     calculate_similarity_score w1 w2 =
       Inr (ratio (lower w1) (lower w2) * (3 / 10)
            + ratio (normalize_phonetic w1) (normalize_phonetic w2) * (4 / 10)
            + (1 - real_of_int \<bar>int (length w1) - int (length w2)\<bar>
                   / real (max (length w1) (length w2))) * (1 / 10)
            + j * (2 / 10))"
proof -
  have "w1 \<noteq> [] \<or> w2 \<noteq> []" using assms by auto
  then have nz: "real (max (length w1) (length w2)) \<noteq> 0" by auto
  obtain j where j: "jaro_similarity (lower w1) (lower w2) = Inr j" "0 \<le> j" "j \<le> 1"
    using jaro_similarity_range[of "lower w1" "lower w2"] by blast
  show ?thesis
    using assms nz j by (simp add: calculate_similarity_score_def Let_def truediv_def)
qed

lemma length_penalty_range:
  assumes "w1 \<noteq> [] \<or> w2 \<noteq> []"
  shows "0 \<le> 1 - real_of_int \<bar>int (length w1) - int (length w2)\<bar>
                   / real (max (length w1) (length w2))
     \<and> 1 - real_of_int \<bar>int (length w1) - int (length w2)\<bar>
                   / real (max (length w1) (length w2)) \<le> 1"
proof -
  let ?d = "real_of_int \<bar>int (length w1) - int (length w2)\<bar>"
  let ?m = "real (max (length w1) (length w2))"
  have "0 < max (length w1) (length w2)" using assms by (auto simp: max_def)
  then have pos: "0 < ?m" by simp
  have "\<bar>int (length w1) - int (length w2)\<bar> \<le> int (max (length w1) (length w2))"
    by auto
  then have "?d \<le> ?m"
    by (metis of_int_le_iff of_int_of_nat_eq)
  then have "?d / ?m \<le> 1" using pos by (simp add: divide_le_eq)
  moreover have "0 \<le> ?d / ?m" by simp
  ultimately show ?thesis by linarith
qed

lemma score_range:
  "\<exists>x. calculate_similarity_score w1 w2 = Inr x \<and> 0 \<le> x \<and> x \<le> 1"
proof (cases "lower w1 = lower w2")
  case True
  then show ?thesis by (simp add: calculate_similarity_score_def)
next
  case False
  then obtain j where j: "0 \<le> j" "j \<le> 1" and
    v: "calculate_similarity_score w1 w2 =
       Inr (ratio (lower w1) (lower w2) * (3 / 10)
            + ratio (normalize_phonetic w1) (normalize_phonetic w2) * (4 / 10)
            + (1 - real_of_int \<bar>int (length w1) - int (length w2)\<bar>
                   / real (max (length w1) (length w2))) * (1 / 10)
            + j * (2 / 10))"
    using score_unfold[OF False] by blast
  have ne: "w1 \<noteq> [] \<or> w2 \<noteq> []" using False by auto
  note r1 = ratio_range[of "lower w1" "lower w2"]
  note r2 = ratio_range[of "normalize_phonetic w1" "normalize_phonetic w2"]
  note r3 = length_penalty_range[OF ne]
  define s where "s = ratio (lower w1) (lower w2)"
  define p where "p = ratio (normalize_phonetic w1) (normalize_phonetic w2)"
  define l where "l = 1 - real_of_int \<bar>int (length w1) - int (length w2)\<bar>
                   / real (max (length w1) (length w2))"
  have b: "0 \<le> s" "s \<le> 1" "0 \<le> p" "p \<le> 1" "0 \<le> l" "l \<le> 1"
    using r1 r2 r3 by (simp_all add: s_def p_def l_def)
  have "0 \<le> s * (3 / 10) + p * (4 / 10) + l * (1 / 10) + j * (2 / 10)
      \<and> s * (3 / 10) + p * (4 / 10) + l * (1 / 10) + j * (2 / 10) \<le> 1"
    using b j by simp
  then show ?thesis using v by (simp add: s_def p_def l_def)
qed

subsection \<open>The scan over the reference words\<close>

text \<open>The value of the composite score, which always exists.\<close>

definition score_of :: "string \<Rightarrow> string \<Rightarrow> real" where
  "score_of w1 w2 = (case calculate_similarity_score w1 w2 of Inl e \<Rightarrow> 0 | Inr x \<Rightarrow> x)"

lemma score_is_score_of: "calculate_similarity_score w1 w2 = Inr (score_of w1 w2)"
  using score_range[of w1 w2] by (auto simp: score_of_def)

lemma score_of_range: "0 \<le> score_of w1 w2 \<and> score_of w1 w2 \<le> 1"
  using score_range[of w1 w2] by (auto simp: score_of_def)

lemma scan_unchanged:
  "\<forall>r\<in>set refs. scorer q r = Inr (f r) \<Longrightarrow>
   \<forall>r\<in>set refs. \<not> (t \<le> f r \<and> bs < f r) \<Longrightarrow>
   scan_references scorer q t refs (b, bs) = Inr (b, bs)"
  by (induction refs) auto

lemma scan_result:
  "\<forall>r\<in>set refs. scorer q r = Inr (f r) \<Longrightarrow>
   \<exists>b' bs'. scan_references scorer q t refs (b, bs) = Inr (b', bs') \<and>
     ((b' = b \<and> bs' = bs \<and> (\<forall>r\<in>set refs. \<not> (t \<le> f r \<and> bs < f r))) \<or>
      (\<exists>earlier later. refs = earlier @ b' # later \<and> bs' = f b' \<and> t \<le> bs' \<and> bs < bs'
         \<and> (\<forall>x\<in>set earlier. f x < bs') \<and> (\<forall>x\<in>set later. f x \<le> bs')))"
proof (induction refs arbitrary: b bs)
  case Nil
  then show ?case by simp
next
  case (Cons r refs)
  have sc: "\<forall>x\<in>set refs. scorer q x = Inr (f x)" and r: "scorer q r = Inr (f r)"
    using Cons.prems by simp_all
  show ?case
  proof (cases "t \<le> f r \<and> bs < f r")
    case True
    then have step: "scan_references scorer q t (r # refs) (b, bs)
                     = scan_references scorer q t refs (r, f r)"
      using r by simp
    from Cons.IH[OF sc, of r "f r"] obtain b' bs' where
      res: "scan_references scorer q t refs (r, f r) = Inr (b', bs')" and
      alt: "(b' = r \<and> bs' = f r \<and> (\<forall>x\<in>set refs. \<not> (t \<le> f x \<and> f r < f x))) \<or>
        (\<exists>earlier later. refs = earlier @ b' # later \<and> bs' = f b' \<and> t \<le> bs' \<and> f r < bs'
           \<and> (\<forall>x\<in>set earlier. f x < bs') \<and> (\<forall>x\<in>set later. f x \<le> bs'))"
      by blast
    from alt have "\<exists>earlier later. r # refs = earlier @ b' # later \<and> bs' = f b' \<and> t \<le> bs'
           \<and> bs < bs' \<and> (\<forall>x\<in>set earlier. f x < bs') \<and> (\<forall>x\<in>set later. f x \<le> bs')"
    proof
      assume u: "b' = r \<and> bs' = f r \<and> (\<forall>x\<in>set refs. \<not> (t \<le> f x \<and> f r < f x))"
      then have "\<forall>x\<in>set refs. f x \<le> bs'" using True by force
      then have "r # refs = [] @ b' # refs \<and> bs' = f b' \<and> t \<le> bs' \<and> bs < bs'
           \<and> (\<forall>x\<in>set []. f x < bs') \<and> (\<forall>x\<in>set refs. f x \<le> bs')"
        using u True by simp
      then show ?thesis by blast
    next
      assume "\<exists>earlier later. refs = earlier @ b' # later \<and> bs' = f b' \<and> t \<le> bs' \<and> f r < bs'
           \<and> (\<forall>x\<in>set earlier. f x < bs') \<and> (\<forall>x\<in>set later. f x \<le> bs')"
      then obtain earlier later where
        e: "refs = earlier @ b' # later" "bs' = f b'" "t \<le> bs'" "f r < bs'"
           "\<forall>x\<in>set earlier. f x < bs'" "\<forall>x\<in>set later. f x \<le> bs'"
        by blast
      have "r # refs = (r # earlier) @ b' # later \<and> bs' = f b' \<and> t \<le> bs' \<and> bs < bs'
           \<and> (\<forall>x\<in>set (r # earlier). f x < bs') \<and> (\<forall>x\<in>set later. f x \<le> bs')"
        using e True by simp
      then show ?thesis by blast
    qed
    then show ?thesis using step res by simp
  next
    case False
    then have step: "scan_references scorer q t (r # refs) (b, bs)
                     = scan_references scorer q t refs (b, bs)"
      using r by auto
    from Cons.IH[OF sc, of b bs] obtain b' bs' where
      res: "scan_references scorer q t refs (b, bs) = Inr (b', bs')" and
      alt: "(b' = b \<and> bs' = bs \<and> (\<forall>x\<in>set refs. \<not> (t \<le> f x \<and> bs < f x))) \<or>
        (\<exists>earlier later. refs = earlier @ b' # later \<and> bs' = f b' \<and> t \<le> bs' \<and> bs < bs'
           \<and> (\<forall>x\<in>set earlier. f x < bs') \<and> (\<forall>x\<in>set later. f x \<le> bs'))"
      by blast
    from alt have "(b' = b \<and> bs' = bs \<and> (\<forall>x\<in>set (r # refs). \<not> (t \<le> f x \<and> bs < f x))) \<or>
        (\<exists>earlier later. r # refs = earlier @ b' # later \<and> bs' = f b' \<and> t \<le> bs' \<and> bs < bs'
           \<and> (\<forall>x\<in>set earlier. f x < bs') \<and> (\<forall>x\<in>set later. f x \<le> bs'))"
    proof
      assume "b' = b \<and> bs' = bs \<and> (\<forall>x\<in>set refs. \<not> (t \<le> f x \<and> bs < f x))"
      then show ?thesis using False by simp
    next
      assume "\<exists>earlier later. refs = earlier @ b' # later \<and> bs' = f b' \<and> t \<le> bs' \<and> bs < bs'
           \<and> (\<forall>x\<in>set earlier. f x < bs') \<and> (\<forall>x\<in>set later. f x \<le> bs')"
      then obtain earlier later where
        e: "refs = earlier @ b' # later" "bs' = f b'" "t \<le> bs'" "bs < bs'"
           "\<forall>x\<in>set earlier. f x < bs'" "\<forall>x\<in>set later. f x \<le> bs'"
        by blast
      have "f r < bs'" using False e(3,4) by auto
      then have "r # refs = (r # earlier) @ b' # later \<and> bs' = f b' \<and> t \<le> bs' \<and> bs < bs'
           \<and> (\<forall>x\<in>set (r # earlier). f x < bs') \<and> (\<forall>x\<in>set later. f x \<le> bs')"
        using e by simp
      then show ?thesis by blast
    qed
    then show ?thesis using step res by simp
  qed
qed

text \<open>A miss of the exact lookup leaves the result to the scan.\<close>

lemma find_best_match_miss:
  "word_variants c (lower q) = None \<Longrightarrow>
   find_best_match c q t =
     (case scan_references calculate_similarity_score q t (reference_words c) (q, 0) of
        Inl e \<Rightarrow> Inl e | Inr (best, best_score) \<Rightarrow> Inr best)"
  by (simp add: find_best_match_def find_best_match_by_def)

lemma scan_score_result:
  "\<exists>b' bs'. scan_references calculate_similarity_score q t refs (q, 0) = Inr (b', bs') \<and>
     ((b' = q \<and> bs' = 0 \<and> (\<forall>r\<in>set refs. \<not> (t \<le> score_of q r \<and> 0 < score_of q r))) \<or>
      (\<exists>earlier later. refs = earlier @ b' # later \<and> bs' = score_of q b' \<and> t \<le> bs' \<and> 0 < bs'
         \<and> (\<forall>x\<in>set earlier. score_of q x < bs') \<and> (\<forall>x\<in>set later. score_of q x \<le> bs')))"
  by (rule scan_result) (simp add: score_is_score_of)

subsection \<open>Empty tokens\<close>

lemma str_replace_nonempty: "s \<noteq> [] \<Longrightarrow> new \<noteq> [] \<Longrightarrow> str_replace old new s \<noteq> []"
  by (cases s) auto

lemma fold_str_replace_nonempty:
  "\<forall>(variant, standard)\<in>set pm. standard \<noteq> [] \<Longrightarrow> w \<noteq> [] \<Longrightarrow>
   fold (\<lambda>(variant, standard) w. str_replace variant standard w) pm w \<noteq> []"
proof (induction pm arbitrary: w)
  case Nil
  then show ?case by simp
next
  case (Cons p pm)
  obtain variant standard where p: "p = (variant, standard)" by (cases p)
  have "str_replace variant standard w \<noteq> []"
    using Cons.prems p by (intro str_replace_nonempty) auto
  then show ?case using Cons.IH[of "str_replace variant standard w"] Cons.prems(1) p by simp
qed

lemma phonetic_map_standard_nonempty: "\<forall>(variant, standard)\<in>set phonetic_map. standard \<noteq> []"
  by (auto simp: phonetic_map_def)

lemma collapse_vowel_runs_nonempty: "w \<noteq> [] \<Longrightarrow> collapse_vowel_runs w \<noteq> []"
  by (cases w) auto

lemma collapse_consonant_runs_nonempty: "w \<noteq> [] \<Longrightarrow> collapse_consonant_runs w \<noteq> []"
  by (cases w) auto

lemma normalize_phonetic_Nil: "normalize_phonetic [] = []"
  by code_simp

lemma normalize_phonetic_nonempty: "w \<noteq> [] \<Longrightarrow> normalize_phonetic w \<noteq> []"
  unfolding normalize_phonetic_def Let_def
  by (intro collapse_consonant_runs_nonempty collapse_vowel_runs_nonempty
      fold_str_replace_nonempty phonetic_map_standard_nonempty) simp

lemma jaro_similarity_one_empty:
  "s1 = [] \<or> s2 = [] \<Longrightarrow> s1 \<noteq> s2 \<Longrightarrow> jaro_similarity s1 s2 = Inr 0"
  by (auto simp: jaro_similarity_def)

lemma score_one_empty:
  assumes "w \<noteq> []"
  shows "calculate_similarity_score [] w = Inr 0" and "calculate_similarity_score w [] = Inr 0"
proof -
  have ne: "lower [] \<noteq> lower w" "lower w \<noteq> lower []"
    using assms by (auto simp: lower_def)
  have n: "normalize_phonetic w \<noteq> []" by (rule normalize_phonetic_nonempty[OF assms])
  have r: "ratio [] (lower w) = 0" "ratio (lower w) [] = 0"
    "ratio [] (normalize_phonetic w) = 0" "ratio (normalize_phonetic w) [] = 0"
    using assms n ratio_empty[of "[]" "lower w"] ratio_empty[of "lower w" "[]"]
      ratio_empty[of "[]" "normalize_phonetic w"] ratio_empty[of "normalize_phonetic w" "[]"]
    by (auto simp: lower_def)
  have j: "jaro_similarity [] (lower w) = Inr 0" "jaro_similarity (lower w) [] = Inr 0"
    using assms jaro_similarity_one_empty[of "[]" "lower w"]
      jaro_similarity_one_empty[of "lower w" "[]"]
    by (auto simp: lower_def)
  have l: "real (length w) \<noteq> 0" using assms by simp
  show "calculate_similarity_score [] w = Inr 0"
    using score_unfold[OF ne(1)] r j l by (auto simp: lower_def normalize_phonetic_Nil)
  show "calculate_similarity_score w [] = Inr 0"
    using score_unfold[OF ne(2)] r j l by (auto simp: lower_def normalize_phonetic_Nil)
qed

subsection \<open>The index of lowercase forms\<close>

text \<open>
  The invariant of the class: the keys of \<open>word_variants\<close> are the lowercase forms of
  the reference words. \<open>load_reference_dictionary\<close> establishes it, and it stores no
  empty word.
\<close>

definition index_consistent :: "corrector \<Rightarrow> bool" where
  "index_consistent c \<longleftrightarrow> dom (word_variants c) = lower ` set (reference_words c)"

lemma load_lines_consistent:
  "index_consistent c \<Longrightarrow> index_consistent (load_lines lines c)"
proof (induction lines arbitrary: c)
  case Nil
  then show ?case by simp
next
  case (Cons line lines)
  show ?case
  proof (cases "strip line = []")
    case True
    then show ?thesis using Cons by simp
  next
    case False
    let ?w = "strip line"
    let ?c = "c\<lparr>reference_words :=
                  (if ?w \<in> set (reference_words c) then reference_words c
                   else reference_words c @ [?w]),
                word_variants :=
                  (word_variants c)(lower ?w \<mapsto>
                     (case word_variants c (lower ?w) of None \<Rightarrow> [] | Some ws \<Rightarrow> ws)
                     @ [?w])\<rparr>"
    have "index_consistent ?c"
      using Cons.prems by (auto simp: index_consistent_def)
    then have "index_consistent (load_lines lines ?c)" by (rule Cons.IH)
    then show ?thesis using False by (simp add: Let_def)
  qed
qed

lemma load_lines_no_empty_word:
  "[] \<notin> set (reference_words c) \<Longrightarrow> [] \<notin> set (reference_words (load_lines lines c))"
proof (induction lines arbitrary: c)
  case Nil
  then show ?case by simp
next
  case (Cons line lines)
  show ?case
  proof (cases "strip line = []")
    case True
    then show ?thesis using Cons by simp
  next
    case False
    let ?w = "strip line"
    let ?c = "c\<lparr>reference_words :=
                  (if ?w \<in> set (reference_words c) then reference_words c
                   else reference_words c @ [?w]),
                word_variants :=
                  (word_variants c)(lower ?w \<mapsto>
                     (case word_variants c (lower ?w) of None \<Rightarrow> [] | Some ws \<Rightarrow> ws)
                     @ [?w])\<rparr>"
    have "[] \<notin> set (reference_words ?c)"
      using Cons.prems False by auto
    then have "[] \<notin> set (reference_words (load_lines lines ?c))" by (rule Cons.IH)
    then show ?thesis using False by (simp add: Let_def)
  qed
qed

lemma load_reference_dictionary_invariant:
  "index_consistent (load_reference_dictionary lines)
   \<and> [] \<notin> set (reference_words (load_reference_dictionary lines))"
  unfolding load_reference_dictionary_def
  by (intro conjI load_lines_consistent load_lines_no_empty_word)
     (simp_all add: index_consistent_def)

subsection \<open>Strings without a common character\<close>

lemma jaro_match_step_disjoint:
  assumes "set s1 \<inter> set s2 = {}" and "i < length s1" and "snd (snd st) = 0"
  shows "snd (snd (jaro_match_step s1 s2 match_dist i st)) = 0"
proof -
  obtain m1 m2 m where st: "st = (m1, m2, m)" by (cases st)
  let ?stop = "nat (min (int i + match_dist + 1) (int (length s2)))"
  let ?start = "nat (max 0 (int i - match_dist))"
  have "\<not> (\<not> m2 ! j \<and> s1 ! i = s2 ! j)" if "j \<in> set [?start..<?stop]" for j
  proof -
    from that have "j < ?stop" by simp
    then have "j < length s2" by linarith
    then have "s2 ! j \<in> set s2" by simp
    moreover have "s1 ! i \<in> set s1" using assms(2) by simp
    ultimately show ?thesis using assms(1) by auto
  qed
  then have "find (\<lambda>j. \<not> m2 ! j \<and> s1 ! i = s2 ! j) [?start..<?stop] = None"
    by (simp only: find_None_iff) blast
  then show ?thesis using st assms(3) by (simp add: jaro_match_step_def Let_def)
qed

lemma jaro_matches_disjoint:
  assumes "set s1 \<inter> set s2 = {}"
  shows "snd (snd (jaro_matches s1 s2)) = 0"
proof -
  let ?d = "int (max (length s1) (length s2) div 2) - 1"
  have "snd (snd (fold (jaro_match_step s1 s2 ?d) [0..<length s1]
             (replicate (length s1) False, replicate (length s2) False, 0))) = 0"
    by (rule fold_upt_invariant[where P = "\<lambda>i st. snd (snd st) = 0"])
       (simp_all add: jaro_match_step_disjoint[OF assms])
  then show ?thesis by (simp add: jaro_matches_def Let_def)
qed

lemma jaro_similarity_disjoint:
  assumes "set s1 \<inter> set s2 = {}" and "s1 \<noteq> [] \<or> s2 \<noteq> []"
  shows "jaro_similarity s1 s2 = Inr 0"
proof -
  have ne: "s1 \<noteq> s2" using assms by auto
  obtain m1 m2 m where jm: "jaro_matches s1 s2 = (m1, m2, m)"
    by (cases "jaro_matches s1 s2") auto
  then have "m = 0" using jaro_matches_disjoint[OF assms(1)] by simp
  then show ?thesis using ne jm by (simp add: jaro_similarity_def Let_def)
qed

subsection \<open>Jaro similarity is symmetric\<close>

























section \<open>The properties of the specification\<close>

text \<open>
  C1. When the lowercase form of the query is a key of \<open>word_variants\<close>,
  \<open>find_best_match\<close> returns the first word registered for that key, for every
  threshold; the result is the same whatever the scorer is, even one that always
  raises, so the scorer is not consulted.
\<close>

theorem find_best_match_exact_hit:
  assumes "word_variants c (lower error_word) = Some (w # ws)"
  shows "find_best_match c error_word threshold = Inr w
         \<and> (\<forall>scorer. find_best_match_by scorer c error_word threshold = Inr w)"
  using assms by (simp add: find_best_match_def find_best_match_by_def)

theorem find_best_match_exact_hit_witness:
  "word_variants (load_reference_dictionary [''Ram'', ''Krishna'']) (lower ''RAM'')
     = Some (''Ram'' # [])
   \<and> find_best_match (load_reference_dictionary [''Ram'', ''Krishna'']) ''RAM'' 1 = Inr ''Ram''
   \<and> find_best_match_by (\<lambda>a b. Inl ZeroDivisionError)
        (load_reference_dictionary [''Ram'', ''Krishna'']) ''RAM'' 1 = Inr ''Ram''"
proof -
  have h: "word_variants (load_reference_dictionary [''Ram'', ''Krishna'']) (lower ''RAM'')
     = Some (''Ram'' # [])"
    by code_simp
  from find_best_match_exact_hit[OF h, of 1] h show ?thesis by blast
qed

text \<open>
  C2. When the exact lookup misses and every reference word scores below the
  threshold (as it does when there is no reference word at all), \<open>find_best_match\<close>
  returns the query unchanged; no exception is raised on the way, the scorer included.
\<close>

theorem find_best_match_unmatched:
  assumes "word_variants c (lower error_word) = None"
    and "\<forall>ref\<in>set (reference_words c).
           \<forall>score. calculate_similarity_score error_word ref = Inr score \<longrightarrow> score < threshold"
  shows "find_best_match c error_word threshold = Inr error_word"
proof -
  have "\<forall>r\<in>set (reference_words c).
          \<not> (threshold \<le> score_of error_word r \<and> 0 < score_of error_word r)"
    using assms(2) score_is_score_of by fastforce
  then have "scan_references calculate_similarity_score error_word threshold (reference_words c)
          (error_word, 0) = Inr (error_word, 0)"
    by (intro scan_unchanged[where f = "score_of error_word"]) (simp_all add: score_is_score_of)
  then show ?thesis using assms(1) by (simp add: find_best_match_miss)
qed

theorem find_best_match_unmatched_witness:
  "word_variants (load_reference_dictionary [''Ram'']) (lower ''xyz'') = None
   \<and> calculate_similarity_score ''xyz'' ''Ram'' = Inr (1 / 10)
   \<and> find_best_match (load_reference_dictionary [''Ram'']) ''xyz'' (6 / 10) = Inr ''xyz''
   \<and> find_best_match (load_reference_dictionary []) ''xyz'' (6 / 10) = Inr ''xyz''"
proof -
  have miss: "word_variants (load_reference_dictionary [''Ram'']) (lower ''xyz'') = None"
    by code_simp
  have refs: "reference_words (load_reference_dictionary [''Ram'']) = [''Ram'']"
    by code_simp
  have score: "calculate_similarity_score ''xyz'' ''Ram'' = Inr (1 / 10)"
    by code_simp
  have low: "\<forall>ref\<in>set (reference_words (load_reference_dictionary [''Ram''])).
           \<forall>score. calculate_similarity_score ''xyz'' ref = Inr score \<longrightarrow> score < 6 / 10"
    unfolding refs using score by simp
  have miss0: "word_variants (load_reference_dictionary []) (lower ''xyz'') = None"
    by code_simp
  have refs0: "reference_words (load_reference_dictionary []) = []"
    by code_simp
  have low0: "\<forall>ref\<in>set (reference_words (load_reference_dictionary [])).
           \<forall>score. calculate_similarity_score ''xyz'' ref = Inr score \<longrightarrow> score < 6 / 10"
    unfolding refs0 by simp
  show ?thesis
    using find_best_match_unmatched[OF miss low] find_best_match_unmatched[OF miss0 low0]
      miss score by simp
qed

text \<open>
  C3. In the scan, a reference word replaces the current best only when its score is
  at least the threshold and strictly above the current best score. Hence, when the
  exact lookup misses and \<open>find_best_match\<close> returns a word other than the query, that
  word stands in the iteration order with a score at least the threshold, every
  earlier word scores strictly less and every later word scores at most as much: of
  two words with the same score the later one is never returned.
\<close>

theorem find_best_match_first_maximum:
  assumes "word_variants c (lower error_word) = None"
    and "find_best_match c error_word threshold = Inr best"
    and "best \<noteq> error_word"
  shows "(\<forall>scorer ref refs cur cur_score score. scorer error_word ref = Inr score \<longrightarrow>
            scan_references scorer error_word threshold (ref # refs) (cur, cur_score)
            = scan_references scorer error_word threshold refs
                (if threshold \<le> score \<and> cur_score < score then (ref, score)
                 else (cur, cur_score)))
         \<and> (\<exists>earlier later best_score.
               reference_words c = earlier @ best # later
               \<and> calculate_similarity_score error_word best = Inr best_score
               \<and> threshold \<le> best_score \<and> 0 < best_score
               \<and> (\<forall>ref\<in>set earlier. \<exists>score.
                     calculate_similarity_score error_word ref = Inr score \<and> score < best_score)
               \<and> (\<forall>ref\<in>set later. \<exists>score.
                     calculate_similarity_score error_word ref = Inr score \<and> score \<le> best_score))"
proof
  show "\<forall>scorer ref refs cur cur_score score. scorer error_word ref = Inr score \<longrightarrow>
            scan_references scorer error_word threshold (ref # refs) (cur, cur_score)
            = scan_references scorer error_word threshold refs
                (if threshold \<le> score \<and> cur_score < score then (ref, score)
                 else (cur, cur_score))"
    by simp
next
  from scan_score_result[of error_word threshold "reference_words c"]
  obtain b' bs' where
    res: "scan_references calculate_similarity_score error_word threshold (reference_words c)
            (error_word, 0) = Inr (b', bs')" and
    alt: "(b' = error_word \<and> bs' = 0
           \<and> (\<forall>r\<in>set (reference_words c).
                 \<not> (threshold \<le> score_of error_word r \<and> 0 < score_of error_word r))) \<or>
      (\<exists>earlier later. reference_words c = earlier @ b' # later \<and> bs' = score_of error_word b'
         \<and> threshold \<le> bs' \<and> 0 < bs'
         \<and> (\<forall>x\<in>set earlier. score_of error_word x < bs')
         \<and> (\<forall>x\<in>set later. score_of error_word x \<le> bs'))"
    by blast
  have b': "b' = best" using assms(1,2) res by (simp add: find_best_match_miss)
  with alt assms(3) obtain earlier later where
    e: "reference_words c = earlier @ best # later" "bs' = score_of error_word best"
       "threshold \<le> bs'" "0 < bs'"
       "\<forall>x\<in>set earlier. score_of error_word x < bs'"
       "\<forall>x\<in>set later. score_of error_word x \<le> bs'"
    by blast
  have "reference_words c = earlier @ best # later
               \<and> calculate_similarity_score error_word best = Inr bs'
               \<and> threshold \<le> bs' \<and> 0 < bs'
               \<and> (\<forall>ref\<in>set earlier. \<exists>score.
                     calculate_similarity_score error_word ref = Inr score \<and> score < bs')
               \<and> (\<forall>ref\<in>set later. \<exists>score.
                     calculate_similarity_score error_word ref = Inr score \<and> score \<le> bs')"
    using e by (simp add: score_is_score_of)
  then show "\<exists>earlier later best_score.
               reference_words c = earlier @ best # later
               \<and> calculate_similarity_score error_word best = Inr best_score
               \<and> threshold \<le> best_score \<and> 0 < best_score
               \<and> (\<forall>ref\<in>set earlier. \<exists>score.
                     calculate_similarity_score error_word ref = Inr score \<and> score < best_score)
               \<and> (\<forall>ref\<in>set later. \<exists>score.
                     calculate_similarity_score error_word ref = Inr score \<and> score \<le> best_score)"
    by blast
qed

theorem find_best_match_first_maximum_witness:
  "word_variants (load_reference_dictionary [''abd'', ''abe'']) (lower ''abc'') = None
   \<and> reference_words (load_reference_dictionary [''abd'', ''abe'']) = [''abd'', ''abe'']
   \<and> calculate_similarity_score ''abc'' ''abd'' = calculate_similarity_score ''abc'' ''abe''
   \<and> find_best_match (load_reference_dictionary [''abd'', ''abe'']) ''abc'' (6 / 10) = Inr ''abd''
   \<and> ''abd'' \<noteq> ''abc''
   \<and> (\<exists>earlier later best_score.
         reference_words (load_reference_dictionary [''abd'', ''abe'']) = earlier @ ''abd'' # later
         \<and> calculate_similarity_score ''abc'' ''abd'' = Inr best_score
         \<and> 6 / 10 \<le> best_score \<and> 0 < best_score
         \<and> (\<forall>ref\<in>set earlier. \<exists>score.
               calculate_similarity_score ''abc'' ref = Inr score \<and> score < best_score)
         \<and> (\<forall>ref\<in>set later. \<exists>score.
               calculate_similarity_score ''abc'' ref = Inr score \<and> score \<le> best_score))"
proof -
  have miss: "word_variants (load_reference_dictionary [''abd'', ''abe'']) (lower ''abc'') = None"
    by code_simp
  have refs: "reference_words (load_reference_dictionary [''abd'', ''abe'']) = [''abd'', ''abe'']"
    by code_simp
  have tie: "calculate_similarity_score ''abc'' ''abd'' = calculate_similarity_score ''abc'' ''abe''"
    by code_simp
  have best: "find_best_match (load_reference_dictionary [''abd'', ''abe'']) ''abc'' (6 / 10)
              = Inr ''abd''"
    by code_simp
  have ne: "''abd'' \<noteq> ''abc''" by simp
  from find_best_match_first_maximum[OF miss best ne] miss refs tie best ne
  show ?thesis by blast
qed

text \<open>
  C4. For every pair of tokens, the empty ones included,
  \<open>calculate_similarity_score\<close> returns a number, and the number (computed in exact
  arithmetic) lies in the closed interval from 0 to 1.
\<close>

theorem calculate_similarity_score_in_unit_interval:
  "\<exists>score. calculate_similarity_score a b = Inr score \<and> 0 \<le> score \<and> score \<le> 1"
  by (rule score_range)




text \<open>
  C6. Threshold monotonicity. When the exact lookup misses and \<open>find_best_match\<close>
  returns, at some threshold, a reference word whose score is \<open>s\<close>, then at every
  threshold strictly above \<open>s\<close> it returns the query unchanged.
\<close>

theorem find_best_match_threshold_monotone:
  assumes "word_variants c (lower error_word) = None"
    and "find_best_match c error_word threshold = Inr best"
    and "best \<in> set (reference_words c)"
    and "calculate_similarity_score error_word best = Inr s"
    and "s < threshold'"
  shows "find_best_match c error_word threshold' = Inr error_word"
proof -
  have s: "s = score_of error_word best"
    using assms(4) by (simp add: score_is_score_of)
  from scan_score_result[of error_word threshold "reference_words c"]
  obtain b' bs' where
    res: "scan_references calculate_similarity_score error_word threshold (reference_words c)
            (error_word, 0) = Inr (b', bs')" and
    alt: "(b' = error_word \<and> bs' = 0
           \<and> (\<forall>r\<in>set (reference_words c).
                 \<not> (threshold \<le> score_of error_word r \<and> 0 < score_of error_word r))) \<or>
      (\<exists>earlier later. reference_words c = earlier @ b' # later \<and> bs' = score_of error_word b'
         \<and> threshold \<le> bs' \<and> 0 < bs'
         \<and> (\<forall>x\<in>set earlier. score_of error_word x < bs')
         \<and> (\<forall>x\<in>set later. score_of error_word x \<le> bs'))"
    by blast
  have b': "b' = best" using assms(1,2) res by (simp add: find_best_match_miss)
  have top: "\<forall>r\<in>set (reference_words c). score_of error_word r \<le> s"
    using alt
  proof
    assume "b' = error_word \<and> bs' = 0
           \<and> (\<forall>r\<in>set (reference_words c).
                 \<not> (threshold \<le> score_of error_word r \<and> 0 < score_of error_word r))"
    then have "best = error_word" using b' by simp
    then have "calculate_similarity_score error_word best = Inr 1"
      by (simp add: calculate_similarity_score_def)
    then have "s = 1" using assms(4) by simp
    then show ?thesis using score_of_range by simp
  next
    assume "\<exists>earlier later. reference_words c = earlier @ b' # later \<and> bs' = score_of error_word b'
         \<and> threshold \<le> bs' \<and> 0 < bs'
         \<and> (\<forall>x\<in>set earlier. score_of error_word x < bs')
         \<and> (\<forall>x\<in>set later. score_of error_word x \<le> bs')"
    then obtain earlier later where
      e: "reference_words c = earlier @ b' # later" "bs' = score_of error_word b'"
         "\<forall>x\<in>set earlier. score_of error_word x < bs'"
         "\<forall>x\<in>set later. score_of error_word x \<le> bs'"
      by blast
    have "bs' = s" using e(2) b' s by simp
    then show ?thesis using e(1,3,4) b' s by fastforce
  qed
  have "\<forall>r\<in>set (reference_words c).
          \<not> (threshold' \<le> score_of error_word r \<and> 0 < score_of error_word r)"
    using top assms(5) by fastforce
  then have "scan_references calculate_similarity_score error_word threshold' (reference_words c)
          (error_word, 0) = Inr (error_word, 0)"
    by (intro scan_unchanged[where f = "score_of error_word"]) (simp_all add: score_is_score_of)
  then show ?thesis using assms(1) by (simp add: find_best_match_miss)
qed

theorem find_best_match_threshold_monotone_witness:
  "word_variants (load_reference_dictionary [''Krishna'', ''Ram'']) (lower ''Kriishna'') = None
   \<and> find_best_match (load_reference_dictionary [''Krishna'', ''Ram'']) ''Kriishna'' (6 / 10)
       = Inr ''Krishna''
   \<and> ''Krishna'' \<in> set (reference_words (load_reference_dictionary [''Krishna'', ''Ram'']))
   \<and> calculate_similarity_score ''Kriishna'' ''Krishna'' = Inr (1151 / 1200)
   \<and> (1151 / 1200 :: real) < 97 / 100
   \<and> find_best_match (load_reference_dictionary [''Krishna'', ''Ram'']) ''Kriishna'' (97 / 100)
       = Inr ''Kriishna''"
proof -
  have miss: "word_variants (load_reference_dictionary [''Krishna'', ''Ram'']) (lower ''Kriishna'')
              = None"
    by code_simp
  have won: "find_best_match (load_reference_dictionary [''Krishna'', ''Ram'']) ''Kriishna'' (6 / 10)
             = Inr ''Krishna''"
    by code_simp
  have mem: "''Krishna'' \<in> set (reference_words (load_reference_dictionary [''Krishna'', ''Ram'']))"
    by code_simp
  have score: "calculate_similarity_score ''Kriishna'' ''Krishna'' = Inr (1151 / 1200)"
    by code_simp
  have above: "(1151 / 1200 :: real) < 97 / 100" by simp
  from find_best_match_threshold_monotone[OF miss won mem score above] miss won mem score above
  show ?thesis by blast
qed

text \<open>
  C7, as stated: an empty token as either argument, the other one arbitrary, gives
  0.0. With both tokens empty the two functions return 1.0: the comparison for
  equality comes first in each.
\<close>

theorem empty_tokens_score_one:
  "calculate_similarity_score '''' '''' = Inr 1 \<and> jaro_similarity '''' '''' = Inr 1
   \<and> calculate_similarity_score '''' '''' \<noteq> Inr 0 \<and> jaro_similarity '''' '''' \<noteq> Inr 0"
  by (simp add: calculate_similarity_score_def jaro_similarity_def)

text \<open>
  C7, amended: an empty token on one side and a token that is not empty on the other
  is not an exception and gives 0.0, from the composite scorer and from the Jaro
  similarity; two empty tokens give 1.0 from both.
\<close>

theorem empty_token_scores_zero:
  assumes "w \<noteq> []"
  shows "calculate_similarity_score [] w = Inr 0 \<and> calculate_similarity_score w [] = Inr 0
         \<and> jaro_similarity [] w = Inr 0 \<and> jaro_similarity w [] = Inr 0
         \<and> calculate_similarity_score [] [] = Inr 1 \<and> jaro_similarity [] [] = Inr 1"
  using assms score_one_empty[OF assms] jaro_similarity_one_empty[of "[]" w]
    jaro_similarity_one_empty[of w "[]"]
  by (auto simp: calculate_similarity_score_def jaro_similarity_def)

theorem empty_token_scores_zero_witness:
  "''Ram'' \<noteq> []
   \<and> calculate_similarity_score [] ''Ram'' = Inr 0 \<and> calculate_similarity_score ''Ram'' [] = Inr 0
   \<and> jaro_similarity [] ''Ram'' = Inr 0 \<and> jaro_similarity ''Ram'' [] = Inr 0"
proof -
  have h: "''Ram'' \<noteq> []" by simp
  from empty_token_scores_zero[OF h] h show ?thesis by blast
qed

text \<open>
  C8, as stated: two strings without a common character have Jaro similarity 0.0.
  Two empty strings have no common character and are identical, so the result is 1.0.
\<close>

theorem jaro_similarity_disjoint_empty:
  "set '''' \<inter> set '''' = {} \<and> jaro_similarity '''' '''' = Inr 1
   \<and> jaro_similarity '''' '''' \<noteq> Inr 0"
  by (simp add: jaro_similarity_def)

text \<open>
  C8, amended: two strings without a common character, not both empty, have Jaro
  similarity exactly 0.0.
\<close>

theorem jaro_similarity_disjoint_zero:
  assumes "set s1 \<inter> set s2 = {}" and "s1 \<noteq> [] \<or> s2 \<noteq> []"
  shows "jaro_similarity s1 s2 = Inr 0"
  using assms by (rule jaro_similarity_disjoint)

theorem jaro_similarity_disjoint_zero_witness:
  "set ''ram'' \<inter> set ''shiv'' = {} \<and> jaro_similarity ''ram'' ''shiv'' = Inr 0"
proof -
  have d: "set ''ram'' \<inter> set ''shiv'' = {}" by simp
  have n: "''ram'' \<noteq> [] \<or> ''shiv'' \<noteq> []" by simp
  from jaro_similarity_disjoint_zero[OF d n] d show ?thesis by blast
qed

text \<open>
  C9. Phonetic convergence: \<open>normalize_phonetic("Gaanga")\<close> and
  \<open>normalize_phonetic("Ganga")\<close> are the same phonetic form, \<open>"ganga"\<close>.
\<close>

theorem normalize_phonetic_Gaanga_Ganga:
  "normalize_phonetic ''Gaanga'' = normalize_phonetic ''Ganga''
   \<and> normalize_phonetic ''Ganga'' = ''ganga''"
  by code_simp

text \<open>
  C10. For the empty query and a vocabulary without an empty word,
  \<open>find_best_match\<close> returns the empty string, at every threshold: the exact lookup
  misses, every reference word scores 0, and the division of the length penalty is by
  the positive length of the reference word. The scorer never divides by zero at
  all: two empty tokens are equal up to case and return before the division.
\<close>

theorem find_best_match_empty_query:
  assumes "index_consistent c" and "[] \<notin> set (reference_words c)"
  shows "find_best_match c [] threshold = Inr []
         \<and> (\<forall>ref\<in>set (reference_words c). calculate_similarity_score [] ref = Inr 0)
         \<and> calculate_similarity_score [] [] = Inr 1
         \<and> (\<forall>w1 w2. calculate_similarity_score w1 w2 \<noteq> Inl ZeroDivisionError)"
proof -
  have zero: "\<forall>ref\<in>set (reference_words c). calculate_similarity_score [] ref = Inr 0"
    using assms(2) score_one_empty(1) by metis
  have "[] \<notin> lower ` set (reference_words c)"
    using assms(2) by (auto simp: lower_def)
  then have "[] \<notin> dom (word_variants c)"
    using assms(1) by (simp add: index_consistent_def)
  then have miss: "word_variants c (lower []) = None"
    by (auto simp: lower_def)
  have "scan_references calculate_similarity_score [] threshold (reference_words c) ([], 0)
        = Inr ([], 0)"
    by (rule scan_unchanged[where f = "\<lambda>r. 0"]) (simp_all add: zero)
  then have res: "find_best_match c [] threshold = Inr []"
    using miss by (simp add: find_best_match_miss)
  have total: "\<forall>w1 w2. calculate_similarity_score w1 w2 \<noteq> Inl ZeroDivisionError"
    using score_is_score_of by simp
  have one: "calculate_similarity_score [] [] = Inr 1"
    by (simp add: calculate_similarity_score_def)
  show ?thesis using res zero one total by blast
qed

theorem find_best_match_empty_query_witness:
  "index_consistent (load_reference_dictionary [''Ram'', ''Krishna''])
   \<and> [] \<notin> set (reference_words (load_reference_dictionary [''Ram'', ''Krishna'']))
   \<and> find_best_match (load_reference_dictionary [''Ram'', ''Krishna'']) [] (6 / 10) = Inr []
   \<and> calculate_similarity_score [] ''Ram'' = Inr 0"
proof -
  have refs: "reference_words (load_reference_dictionary [''Ram'', ''Krishna''])
              = [''Ram'', ''Krishna'']"
    by code_simp
  have inv: "index_consistent (load_reference_dictionary [''Ram'', ''Krishna''])"
    using load_reference_dictionary_invariant by blast
  have ne: "[] \<notin> set (reference_words (load_reference_dictionary [''Ram'', ''Krishna'']))"
    unfolding refs by simp
  from find_best_match_empty_query[OF inv ne, of "6 / 10"] inv ne refs
  show ?thesis by simp
qed

end
